theory Spec2Isabelle
  imports Complex_Main "HOL-Library.AList" "HOL-Library.Multiset"
begin

section \<open>Python values and the built-ins the application calls\<close>

text \<open>
  The application is the script \<^verbatim>\<open>streamlit_app.py\<close>. Its data are Python texts, the
  values \<^verbatim>\<open>json.loads\<close> returns, and dictionaries. A text is a \<^typ>\<open>string\<close>: one
  \<^typ>\<open>char\<close> per code point, for the code points below 256. Floats are the rationals
  they denote; where a conversion would round or give a value that is not finite, the
  model answers \<open>NotModelled\<close> instead of a number. Every exception the script can raise
  is a value of \<open>error\<close>.
\<close>

datatype error =
    ValueError
  | TypeError
  | AttributeError
  | OverflowError
  | StreamlitAPIException
  | NotModelled

text \<open>\<^verbatim>\<open>str.isspace\<close> on one code point below 256.\<close>

definition is_space :: "char \<Rightarrow> bool" where
  "is_space c = (of_char c \<in> {9, 10, 11, 12, 13, 28, 29, 30, 31, 32, 133, 160 :: nat})"

text \<open>\<^verbatim>\<open>s.split()\<close>: the maximal runs of characters that are not whitespace.\<close>

fun split_ws :: "string \<Rightarrow> string \<Rightarrow> string list" where
  "split_ws cur [] = (if cur = [] then [] else [cur])"
| "split_ws cur (c # cs) =
     (if is_space c then (if cur = [] then split_ws [] cs else cur # split_ws [] cs)
      else split_ws (cur @ [c]) cs)"

definition py_split :: "string \<Rightarrow> string list" where
  "py_split s = split_ws [] s"

text \<open>\<^verbatim>\<open>s.split(sep)\<close> for a separator of one character: every occurrence splits.\<close>

fun split_on :: "char \<Rightarrow> string \<Rightarrow> string \<Rightarrow> string list" where
  "split_on sep cur [] = [cur]"
| "split_on sep cur (c # cs) =
     (if c = sep then cur # split_on sep [] cs else split_on sep (cur @ [c]) cs)"

definition py_split_on :: "char \<Rightarrow> string \<Rightarrow> string list" where
  "py_split_on sep s = split_on sep [] s"

text \<open>\<^verbatim>\<open>s.strip()\<close>.\<close>

definition strip :: "string \<Rightarrow> string" where
  "strip s = rev (dropWhile is_space (rev (dropWhile is_space s)))"

text \<open>
  \<^verbatim>\<open>int(s)\<close> for a text: surrounding whitespace, an optional sign, then decimal digits
  with single underscores allowed between two digits. Anything else raises
  \<^verbatim>\<open>ValueError\<close>. (The interpreter's configurable cap on the length of such a
  literal is not part of the model.)
\<close>

definition is_digit :: "char \<Rightarrow> bool" where
  "is_digit c = (48 \<le> (of_char c :: nat) \<and> (of_char c :: nat) \<le> 57)"

definition digit_val :: "char \<Rightarrow> nat" where
  "digit_val c = of_char c - 48"

fun int_digits :: "nat \<Rightarrow> string \<Rightarrow> nat option" where
  "int_digits acc [] = Some acc"
| "int_digits acc [c] = (if is_digit c then Some (10 * acc + digit_val c) else None)"
| "int_digits acc (c # d # ds) =
     (if is_digit c then int_digits (10 * acc + digit_val c) (d # ds)
      else if c = CHR ''_'' \<and> is_digit d then int_digits (10 * acc + digit_val d) ds
      else None)"

definition unsigned_literal :: "string \<Rightarrow> nat option" where
  "unsigned_literal s =
     (case s of
        [] \<Rightarrow> None
      | d # ds \<Rightarrow> if is_digit d then int_digits (digit_val d) ds else None)"

definition int_literal :: "string \<Rightarrow> int option" where
  "int_literal s =
     (case s of
        [] \<Rightarrow> None
      | c # cs \<Rightarrow>
          if c = CHR ''-'' then map_option (\<lambda>n. - int n) (unsigned_literal cs)
          else if c = CHR ''+'' then map_option int (unsigned_literal cs)
          else map_option int (unsigned_literal s))"

definition py_int :: "string \<Rightarrow> error + int" where
  "py_int s = (case int_literal (strip s) of None \<Rightarrow> Inl ValueError | Some n \<Rightarrow> Inr n)"

section \<open>Usage metrics (lines 283 to 376 of the script)\<close>

text \<open>
  A value of \<^verbatim>\<open>metrics_dict\<close> is the integer \<^verbatim>\<open>int(value)\<close> returned, or the raw
  text when it raised. The dictionary is an association list in insertion order;
  \<^const>\<open>AList.update\<close> is the assignment \<^verbatim>\<open>metrics_dict[key] = v\<close>: an existing key
  keeps its place, a new key goes last.
\<close>

datatype metric_value = IntValue int | TextValue string

type_synonym metrics = "(string \<times> metric_value) list"

text \<open>
  One round of the loop of lines 301 to 307. \<^verbatim>\<open>key, value = item.split("=")\<close> unpacks
  a list of exactly two parts; any other length raises \<^verbatim>\<open>ValueError\<close>, outside the
  \<^verbatim>\<open>try\<close> that guards \<^verbatim>\<open>int(value)\<close>.
\<close>

definition store_item :: "metrics \<Rightarrow> string \<Rightarrow> error + metrics" where
  "store_item metrics_dict item =
     (if CHR ''='' \<in> set item then
        (case py_split_on CHR ''='' item of
           [key, val] \<Rightarrow>
             Inr (AList.update key
                    (case py_int val of Inr n \<Rightarrow> IntValue n | Inl _ \<Rightarrow> TextValue val)
                    metrics_dict)
         | _ \<Rightarrow> Inl ValueError)
      else Inr metrics_dict)"

fun parse_items :: "metrics \<Rightarrow> string list \<Rightarrow> error + metrics" where
  "parse_items metrics_dict [] = Inr metrics_dict"
| "parse_items metrics_dict (item # items) =
     (case store_item metrics_dict item of
        Inl e \<Rightarrow> Inl e
      | Inr d \<Rightarrow> parse_items d items)"

definition parse_metrics :: "string \<Rightarrow> error + metrics" where
  "parse_metrics parse_string = parse_items [] (py_split parse_string)"

text \<open>\<^verbatim>\<open>metrics_dict.get(key, 0)\<close>.\<close>

definition metrics_get :: "metrics \<Rightarrow> string \<Rightarrow> metric_value" where
  "metrics_get metrics_dict key =
     (case map_of metrics_dict key of None \<Rightarrow> IntValue 0 | Some v \<Rightarrow> v)"

text \<open>
  Lines 314 to 338: the three counters, then the cost. Dividing a text by a number
  raises \<^verbatim>\<open>TypeError\<close>; \<^verbatim>\<open>total_tokens\<close> is read and not used again.
\<close>

record usage =
  input_tokens :: int
  output_tokens :: int
  total_tokens :: metric_value
  total_cost :: rat

definition cost_of :: "int \<Rightarrow> int \<Rightarrow> rat" where
  "cost_of inp outp =
     (let input_cost = (of_int inp / 1000000) * (15 / 1000);
          output_cost = (of_int outp / 1000000) * (6 / 100)
      in input_cost + output_cost)"

definition usage_metrics :: "string \<Rightarrow> error + usage" where
  "usage_metrics metrics_str =
     (case parse_metrics metrics_str of
        Inl e \<Rightarrow> Inl e
      | Inr metrics_dict \<Rightarrow>
          (case (metrics_get metrics_dict ''prompt_tokens'',
                 metrics_get metrics_dict ''completion_tokens'') of
             (IntValue inp, IntValue outp) \<Rightarrow>
               Inr \<lparr>input_tokens = inp, output_tokens = outp,
                    total_tokens = metrics_get metrics_dict ''total_tokens'',
                    total_cost = cost_of inp outp\<rparr>
           | _ \<Rightarrow> Inl TypeError))"

section \<open>The usage accountant\<close>

text \<open>
  Modelled from the spec: the class \<^verbatim>\<open>ModelsPricing\<close> of \<^verbatim>\<open>src/utils/pricing.py\<close>,
  which the script imports and whose file is not among the sources. The spec gives it
  counters that \<^verbatim>\<open>track\<close> adds to, a \<^verbatim>\<open>reset\<close> that zeroes them, and a \<^verbatim>\<open>summary\<close>
  whose cost is \<open>input_tokens * rate_in + output_tokens * rate_out\<close> for two fixed
  rates, taken here as parameters.
\<close>

record accountant =
  acc_input_tokens :: nat
  acc_output_tokens :: nat




definition reset :: "accountant \<Rightarrow> accountant" where
  "reset a = a\<lparr>acc_input_tokens := 0, acc_output_tokens := 0\<rparr>"


section \<open>The run button (lines 110 to 125 of the script)\<close>

text \<open>
  What the handler does with the two text inputs and the environment's API key: it
  shows an error, shows a warning, or calls \<^verbatim>\<open>kickoff\<close> on the crew, the only place
  where the external agents are invoked. An empty text is false in Python, and so is a
  variable that is not set.
\<close>

datatype action =
    StError string
  | StWarning string
  | Kickoff string string

definition run_button_handler :: "string \<Rightarrow> string \<Rightarrow> string option \<Rightarrow> action" where
  "run_button_handler industry country api_key =
     (if industry = [] \<or> country = [] then
        StError ''Please enter an industry and country''
      else if api_key = None \<or> api_key = Some [] then
        StWarning ''Please enter your OpenAI API key in the sidebar to continue''
      else Kickoff industry country)"

text \<open>The number of times an action invokes the crew.\<close>

fun invocations :: "action \<Rightarrow> nat" where
  "invocations (Kickoff _ _) = 1"
| "invocations _ = 0"

section \<open>JSON values\<close>

text \<open>
  What \<^verbatim>\<open>json.loads\<close> returns: \<^verbatim>\<open>None\<close>, a truth value, an integer, a text, a list or
  a dictionary with text keys, in insertion order. Numbers written with a fraction or an
  exponent become Python floats and are outside the model.
\<close>

datatype json =
    JNull
  | JBool bool
  | JInt int
  | JStr string
  | JList "json list"
  | JObj "(string \<times> json) list"

type_synonym dict = "(string \<times> json) list"

text \<open>\<^verbatim>\<open>d.get(key, default)\<close>; also \<^verbatim>\<open>d[key] if key in d else default\<close>.\<close>

definition dict_get :: "dict \<Rightarrow> string \<Rightarrow> json \<Rightarrow> json" where
  "dict_get d key dflt = (case map_of d key of None \<Rightarrow> dflt | Some v \<Rightarrow> v)"

text \<open>The truth value of a value, as \<^verbatim>\<open>if v:\<close> and \<^verbatim>\<open>v or w\<close> read it.\<close>

fun truthy :: "json \<Rightarrow> bool" where
  "truthy JNull = False"
| "truthy (JBool b) = b"
| "truthy (JInt n) = (n \<noteq> 0)"
| "truthy (JStr s) = (s \<noteq> [])"
| "truthy (JList xs) = (xs \<noteq> [])"
| "truthy (JObj d) = (d \<noteq> [])"

text \<open>
  \<^verbatim>\<open>for x in v\<close>: the elements of a list, the one-character texts of a text, the keys of
  a dictionary; any other value is not iterable.
\<close>

fun py_iter :: "json \<Rightarrow> error + json list" where
  "py_iter (JList xs) = Inr xs"
| "py_iter (JStr s) = Inr (map (\<lambda>c. JStr [c]) s)"
| "py_iter (JObj d) = Inr (map (\<lambda>kv. JStr (fst kv)) d)"
| "py_iter _ = Inl TypeError"

text \<open>\<^verbatim>\<open>str(n)\<close> for an integer.\<close>

definition digit_char :: "nat \<Rightarrow> char" where
  "digit_char d = char_of (48 + d)"

fun str_of_nat :: "nat \<Rightarrow> string" where
  "str_of_nat n = (if n < 10 then [digit_char n] else str_of_nat (n div 10) @ [digit_char (n mod 10)])"

definition str_of_int :: "int \<Rightarrow> string" where
  "str_of_int i = (if i < 0 then CHR ''-'' # str_of_nat (nat (- i)) else str_of_nat (nat i))"

text \<open>
  \<^verbatim>\<open>repr\<close> and \<^verbatim>\<open>str\<close>, which format a value inside an f-string. The text of a
  container quotes its texts as \<^verbatim>\<open>repr\<close> does: single quotes unless the text holds one
  and no double quote, and escapes for the backslash, the quote and the characters that
  are not printable.
\<close>

definition hex_char :: "nat \<Rightarrow> char" where
  "hex_char d = (if d < 10 then char_of (48 + d) else char_of (87 + d))"

fun join :: "string \<Rightarrow> string list \<Rightarrow> string" where
  "join sep [] = []"
| "join sep [x] = x"
| "join sep (x # y # ys) = x @ sep @ join sep (y # ys)"

definition repr_char :: "char \<Rightarrow> char \<Rightarrow> string" where
  "repr_char q c =
     (let n = (of_char c :: nat) in
      if c = CHR 0x5C then [CHR 0x5C, CHR 0x5C]
      else if c = q then [CHR 0x5C, q]
      else if c = CHR 0x09 then [CHR 0x5C, CHR ''t'']
      else if c = CHR 0x0A then [CHR 0x5C, CHR ''n'']
      else if c = CHR 0x0D then [CHR 0x5C, CHR ''r'']
      else if n < 32 \<or> (127 \<le> n \<and> n \<le> 160) \<or> n = 173 then
        [CHR 0x5C, CHR ''x'', hex_char (n div 16), hex_char (n mod 16)]
      else [c])"

definition repr_str :: "string \<Rightarrow> string" where
  "repr_str s =
     (let q = (if CHR 0x27 \<in> set s \<and> CHR 0x22 \<notin> set s then CHR 0x22 else CHR 0x27)
      in q # concat (map (repr_char q) s) @ [q])"

fun py_repr :: "json \<Rightarrow> string" where
  "py_repr JNull = ''None''"
| "py_repr (JBool b) = (if b then ''True'' else ''False'')"
| "py_repr (JInt n) = str_of_int n"
| "py_repr (JStr s) = repr_str s"
| "py_repr (JList xs) = ''['' @ join '', '' (map py_repr xs) @ '']''"
| "py_repr (JObj d) =
     ''{'' @ join '', '' (map (\<lambda>kv. repr_str (fst kv) @ '': '' @ py_repr (snd kv)) d) @ ''}''"

fun py_str :: "json \<Rightarrow> string" where
  "py_str (JStr s) = s"
| "py_str v = py_repr v"






section \<open>The results on screen (lines 137 to 242 of the script)\<close>



















section \<open>The downloadable report (lines 246 to 274 of the script)\<close>

definition nl :: string where
  "nl = [CHR 0x0A]"

fun report_persons :: "json list \<Rightarrow> string" where
  "report_persons [] = []"
| "report_persons (JObj person # rest) =
     (''- '' @ py_str (dict_get person ''name'' (JStr ''N/A''))
      @ '' ('' @ py_str (dict_get person ''role'' (JStr ''N/A''))
      @ ''): '' @ py_str (dict_get person ''linkedin'' (JStr ''N/A'')) @ nl)
     @ report_persons rest"
| "report_persons (_ # rest) = report_persons rest"

text \<open>
  One round of the loop of line 249. Only a dictionary has \<^verbatim>\<open>get\<close>: any other entry
  raises \<^verbatim>\<open>AttributeError\<close>.
\<close>

fun report_lead :: "json \<Rightarrow> error + string" where
  "report_lead (JObj lead) =
     (let fields =
            ''## '' @ py_str (dict_get lead ''company_name'' (JStr ''N/A'')) @ nl @ nl
            @ ''- **Annual Revenue:** '' @ py_str (dict_get lead ''annual_revenue'' (JStr ''N/A'')) @ nl
            @ ''- **Website:** '' @ py_str (dict_get lead ''website_url'' (JStr ''N/A'')) @ nl
            @ ''- **Review:** '' @ py_str (dict_get lead ''review'' (JStr ''N/A'')) @ nl
            @ ''- **Number of Employees:** '' @ py_str (dict_get lead ''num_employees'' (JStr ''N/A'')) @ nl
            @ ''- **Score:** '' @ py_str (dict_get lead ''score'' (JStr ''N/A'')) @ ''/10'' @ nl @ nl;
          kdm = dict_get lead ''key_decision_makers'' (JList [])
      in if truthy kdm then
           (case py_iter kdm of
              Inl e \<Rightarrow> Inl e
            | Inr persons \<Rightarrow>
                Inr (fields @ ''### Key Decision Makers'' @ nl @ report_persons persons @ nl
                     @ ''---'' @ nl @ nl))
         else Inr (fields @ ''---'' @ nl @ nl))"
| "report_lead _ = Inl AttributeError"

fun report_leads :: "json list \<Rightarrow> error + string" where
  "report_leads [] = Inr []"
| "report_leads (lead # rest) =
     (case report_lead lead of
        Inl e \<Rightarrow> Inl e
      | Inr s \<Rightarrow> (case report_leads rest of Inl e \<Rightarrow> Inl e | Inr t \<Rightarrow> Inr (s @ t)))"

text \<open>
  \<^verbatim>\<open>json.dumps(v, indent=2)\<close>: texts in double quotes with the escapes of the default
  \<^verbatim>\<open>ensure_ascii\<close>, items one per line, two spaces per level.
\<close>

definition escape_char :: "char \<Rightarrow> string" where
  "escape_char c =
     (let n = (of_char c :: nat) in
      if c = CHR 0x22 then [CHR 0x5C, CHR 0x22]
      else if c = CHR 0x5C then [CHR 0x5C, CHR 0x5C]
      else if c = CHR 0x0A then [CHR 0x5C, CHR ''n'']
      else if c = CHR 0x0D then [CHR 0x5C, CHR ''r'']
      else if c = CHR 0x09 then [CHR 0x5C, CHR ''t'']
      else if c = CHR 0x08 then [CHR 0x5C, CHR ''b'']
      else if c = CHR 0x0C then [CHR 0x5C, CHR ''f'']
      else if 32 \<le> n \<and> n \<le> 126 then [c]
      else [CHR 0x5C, CHR ''u'', CHR ''0'', CHR ''0'', hex_char (n div 16), hex_char (n mod 16)])"

definition dumps_str :: "string \<Rightarrow> string" where
  "dumps_str s = CHR 0x22 # concat (map escape_char s) @ [CHR 0x22]"

definition newline_indent :: "nat \<Rightarrow> string" where
  "newline_indent level = CHR 0x0A # replicate (2 * level) CHR '' ''"

fun dumps :: "nat \<Rightarrow> json \<Rightarrow> string" where
  "dumps level JNull = ''null''"
| "dumps level (JBool b) = (if b then ''true'' else ''false'')"
| "dumps level (JInt n) = str_of_int n"
| "dumps level (JStr s) = dumps_str s"
| "dumps level (JList xs) =
     (if xs = [] then ''[]''
      else ''['' @ newline_indent (Suc level)
           @ join ('','' @ newline_indent (Suc level)) (map (dumps (Suc level)) xs)
           @ newline_indent level @ '']'')"
| "dumps level (JObj d) =
     (if d = [] then ''{}''
      else ''{'' @ newline_indent (Suc level)
           @ join ('','' @ newline_indent (Suc level))
               (map (\<lambda>kv. dumps_str (fst kv) @ '': '' @ dumps (Suc level) (snd kv)) d)
           @ newline_indent level @ ''}'')"

definition json_dumps :: "json \<Rightarrow> string" where
  "json_dumps v = dumps 0 v"

text \<open>
  Lines 248 to 274. \<open>Inl e\<close> is the text \<^verbatim>\<open>Error generating report:\<close> followed by the
  message of \<open>e\<close>, which replaces the report when anything in the block raised.
\<close>

definition raw_json_heading :: string where
  "raw_json_heading = nl @ ''## Raw JSON Data'' @ nl @ nl @ ''```json'' @ nl"

definition closing_fence :: string where
  "closing_fence = nl @ ''```'' @ nl"

definition generate_report :: "json list \<Rightarrow> error + string" where
  "generate_report results_list =
     (case report_leads results_list of
        Inl e \<Rightarrow> Inl e
      | Inr sections \<Rightarrow>
          Inr (''# Lead Generation Report'' @ nl @ nl @ sections
               @ raw_json_heading @ json_dumps (JList results_list) @ closing_fence))"


section \<open>Notions the properties are stated with\<close>




definition iterable_kdm :: "dict \<Rightarrow> bool" where
  "iterable_kdm lead =
     (let kdm = dict_get lead ''key_decision_makers'' (JList [])
      in \<not> truthy kdm \<or> (case py_iter kdm of Inr _ \<Rightarrow> True | Inl _ \<Rightarrow> False))"




section \<open>The schema of a lead (lines 16 to 24 of \<^verbatim>\<open>crew.py\<close>)\<close>





section \<open>Reading the dump back\<close>

text \<open>
  \<^verbatim>\<open>json.loads\<close>, for the texts whose numbers are integers: whitespace between the
  tokens, texts in double quotes with their escapes (a raw control character ends the
  parse, and so does an escape for a code point from 256 on, which a \<^typ>\<open>char\<close> cannot
  hold), \<^verbatim>\<open>null\<close>, \<^verbatim>\<open>true\<close>, \<^verbatim>\<open>false\<close>, integers without a leading zero, lists and
  dictionaries. A number with a fraction or an exponent would be a float: the parse
  gives \<open>None\<close> there. The parser recurses on a fuel; \<open>json_loads\<close> gives it the length of
  the text and one more.
\<close>

definition is_json_ws :: "char \<Rightarrow> bool" where
  "is_json_ws c = (c = CHR '' '' \<or> c = CHR 0x09 \<or> c = CHR 0x0A \<or> c = CHR 0x0D)"

definition skip_ws :: "string \<Rightarrow> string" where
  "skip_ws s = dropWhile is_json_ws s"

definition hex_val :: "char \<Rightarrow> nat option" where
  "hex_val c =
     (let n = (of_char c :: nat) in
      if 48 \<le> n \<and> n \<le> 57 then Some (n - 48)
      else if 97 \<le> n \<and> n \<le> 102 then Some (n - 87)
      else if 65 \<le> n \<and> n \<le> 70 then Some (n - 55)
      else None)"

definition unicode_escape :: "char \<Rightarrow> char \<Rightarrow> char \<Rightarrow> char \<Rightarrow> char option" where
  "unicode_escape a b c d =
     (case (hex_val a, hex_val b, hex_val c, hex_val d) of
        (Some w, Some x, Some y, Some z) \<Rightarrow>
          (let n = ((w * 16 + x) * 16 + y) * 16 + z
           in if n < 256 then Some (char_of n) else None)
      | _ \<Rightarrow> None)"

fun str_body :: "string \<Rightarrow> string \<Rightarrow> (string \<times> string) option" where
  "str_body acc [] = None"
| "str_body acc (c # cs) =
     (if c = CHR 0x22 then Some (acc, cs)
      else if c = CHR 0x5C then
        (case cs of
           [] \<Rightarrow> None
         | e # r \<Rightarrow>
             if e = CHR 0x22 \<or> e = CHR 0x5C \<or> e = CHR ''/'' then str_body (acc @ [e]) r
             else if e = CHR ''n'' then str_body (acc @ [CHR 0x0A]) r
             else if e = CHR ''r'' then str_body (acc @ [CHR 0x0D]) r
             else if e = CHR ''t'' then str_body (acc @ [CHR 0x09]) r
             else if e = CHR ''b'' then str_body (acc @ [CHR 0x08]) r
             else if e = CHR ''f'' then str_body (acc @ [CHR 0x0C]) r
             else if e = CHR ''u'' then
               (case r of
                  h1 # h2 # h3 # h4 # r' \<Rightarrow>
                    (case unicode_escape h1 h2 h3 h4 of
                       Some ch \<Rightarrow> str_body (acc @ [ch]) r'
                     | None \<Rightarrow> None)
                | _ \<Rightarrow> None)
             else None)
      else if (of_char c :: nat) < 32 then None
      else str_body (acc @ [c]) cs)"

definition strip_prefix :: "string \<Rightarrow> string \<Rightarrow> string option" where
  "strip_prefix p s = (if take (length p) s = p then Some (drop (length p) s) else None)"

definition parse_nat :: "string \<Rightarrow> (nat \<times> string) option" where
  "parse_nat s =
     (case s of
        [] \<Rightarrow> None
      | c # cs \<Rightarrow>
          if c = CHR ''0'' then Some (0, cs)
          else if is_digit c then
            Some (foldl (\<lambda>a d. 10 * a + digit_val d) 0 (takeWhile is_digit s),
                  dropWhile is_digit s)
          else None)"

definition parse_number :: "string \<Rightarrow> (json \<times> string) option" where
  "parse_number s =
     (case (case s of
              [] \<Rightarrow> None
            | c # cs \<Rightarrow>
                if c = CHR ''-'' then map_option (\<lambda>p. (- int (fst p), snd p)) (parse_nat cs)
                else map_option (\<lambda>p. (int (fst p), snd p)) (parse_nat s)) of
        None \<Rightarrow> None
      | Some (i, r) \<Rightarrow>
          (case r of
             [] \<Rightarrow> Some (JInt i, r)
           | c # _ \<Rightarrow>
               if c = CHR ''.'' \<or> c = CHR ''e'' \<or> c = CHR ''E'' then None
               else Some (JInt i, r)))"

text \<open>The dictionary of the pairs read: a key read twice keeps its place and its last value.\<close>

definition dict_of :: "(string \<times> json) list \<Rightarrow> dict" where
  "dict_of pairs = foldl (\<lambda>d kv. AList.update (fst kv) (snd kv) d) [] pairs"

fun parse_value :: "nat \<Rightarrow> string \<Rightarrow> (json \<times> string) option"
  and parse_elements :: "nat \<Rightarrow> string \<Rightarrow> (json list \<times> string) option"
  and parse_members :: "nat \<Rightarrow> string \<Rightarrow> ((string \<times> json) list \<times> string) option"
where
  "parse_value 0 s = None"
| "parse_value (Suc n) s =
     (case skip_ws s of
        [] \<Rightarrow> None
      | c # cs \<Rightarrow>
          if c = CHR 0x22 then map_option (\<lambda>p. (JStr (fst p), snd p)) (str_body [] cs)
          else if c = CHR ''['' then
            (case skip_ws cs of
               [] \<Rightarrow> None
             | d # r \<Rightarrow>
                 if d = CHR '']'' then Some (JList [], r)
                 else map_option (\<lambda>p. (JList (fst p), snd p)) (parse_elements n cs))
          else if c = CHR ''{'' then
            (case skip_ws cs of
               [] \<Rightarrow> None
             | d # r \<Rightarrow>
                 if d = CHR ''}'' then Some (JObj [], r)
                 else map_option (\<lambda>p. (JObj (dict_of (fst p)), snd p)) (parse_members n cs))
          else if c = CHR ''n'' then map_option (Pair JNull) (strip_prefix ''ull'' cs)
          else if c = CHR ''t'' then map_option (Pair (JBool True)) (strip_prefix ''rue'' cs)
          else if c = CHR ''f'' then map_option (Pair (JBool False)) (strip_prefix ''alse'' cs)
          else parse_number (c # cs))"
| "parse_elements 0 s = None"
| "parse_elements (Suc n) s =
     (case parse_value n s of
        None \<Rightarrow> None
      | Some (v, r) \<Rightarrow>
          (case skip_ws r of
             [] \<Rightarrow> None
           | c # r' \<Rightarrow>
               if c = CHR '','' then
                 map_option (\<lambda>p. (v # fst p, snd p)) (parse_elements n r')
               else if c = CHR '']'' then Some ([v], r')
               else None))"
| "parse_members 0 s = None"
| "parse_members (Suc n) s =
     (case skip_ws s of
        [] \<Rightarrow> None
      | q # ks \<Rightarrow>
          if q = CHR 0x22 then
            (case str_body [] ks of
               None \<Rightarrow> None
             | Some (key, r) \<Rightarrow>
                 (case skip_ws r of
                    [] \<Rightarrow> None
                  | c # vs \<Rightarrow>
                      if c = CHR '':'' then
                        (case parse_value n vs of
                           None \<Rightarrow> None
                         | Some (v, r') \<Rightarrow>
                             (case skip_ws r' of
                                [] \<Rightarrow> None
                              | d # r'' \<Rightarrow>
                                  if d = CHR '','' then
                                    map_option (\<lambda>p. ((key, v) # fst p, snd p))
                                      (parse_members n r'')
                                  else if d = CHR ''}'' then Some ([(key, v)], r'')
                                  else None))
                      else None))
          else None)"

definition json_loads :: "string \<Rightarrow> json option" where
  "json_loads s =
     (case parse_value (Suc (length s)) s of
        None \<Rightarrow> None
      | Some (v, r) \<Rightarrow> if skip_ws r = [] then Some v else None)"

text \<open>
  \<open>after_last m s\<close> is what follows the last occurrence of \<open>m\<close> in \<open>s\<close>, and
  \<open>strip_suffix p s\<close> is \<open>s\<close> without its ending \<open>p\<close>; both are \<open>None\<close> when there is
  no such part.
\<close>

fun after_last :: "string \<Rightarrow> string \<Rightarrow> string option" where
  "after_last m [] = None"
| "after_last m (c # cs) =
     (case after_last m cs of
        Some r \<Rightarrow> Some r
      | None \<Rightarrow>
          if take (length m) (c # cs) = m then Some (drop (length m) (c # cs)) else None)"

definition strip_suffix :: "string \<Rightarrow> string \<Rightarrow> string option" where
  "strip_suffix p s =
     (if length p \<le> length s \<and> drop (length s - length p) s = p
      then Some (take (length s - length p) s) else None)"

text \<open>
  Modelled from the spec: the extraction of the report's embedded machine-readable
  dump, for which the repository has no code. The dump is what follows the last heading
  of the raw data with its opening fence, up to the closing fence that ends the report;
  \<^verbatim>\<open>json.loads\<close> reads it.
\<close>

definition extract_dump :: "string \<Rightarrow> json option" where
  "extract_dump text =
     (case after_last raw_json_heading text of
        None \<Rightarrow> None
      | Some r \<Rightarrow>
          (case strip_suffix closing_fence r of
             None \<Rightarrow> None
           | Some d \<Rightarrow> json_loads d))"

text \<open>A text that cannot continue a number: where an integer may end.\<close>

definition ends_number :: "string \<Rightarrow> bool" where
  "ends_number rest =
     (case rest of
        [] \<Rightarrow> True
      | c # _ \<Rightarrow> \<not> is_digit c \<and> c \<noteq> CHR ''.'' \<and> c \<noteq> CHR ''e'' \<and> c \<noteq> CHR ''E'')"

text \<open>
  A value as \<^verbatim>\<open>json.loads\<close> builds it: no dictionary holds a key twice.
\<close>

fun wf_json :: "json \<Rightarrow> bool" where
  "wf_json (JList xs) = list_all wf_json xs"
| "wf_json (JObj d) = (distinct (map fst d) \<and> list_all (\<lambda>kv. wf_json (snd kv)) d)"
| "wf_json _ = True"

text \<open>The characters a dumped value can start with.\<close>

definition value_start :: "char \<Rightarrow> bool" where
  "value_start c =
     (c = CHR 0x22 \<or> c = CHR ''['' \<or> c = CHR ''{'' \<or> c = CHR ''n'' \<or> c = CHR ''t''
      \<or> c = CHR ''f'' \<or> c = CHR ''-'' \<or> is_digit c)"

text \<open>
  \<open>has_pair a b s\<close>: somewhere in \<open>s\<close> an \<open>a\<close> is followed at once by a \<open>b\<close>. A text is
  \<open>hash_safe\<close> when no line of it starts with a hash, its first line included.
\<close>

fun has_pair :: "'a \<Rightarrow> 'a \<Rightarrow> 'a list \<Rightarrow> bool" where
  "has_pair a b (x # y # r) = ((x = a \<and> y = b) \<or> has_pair a b (y # r))"
| "has_pair a b _ = False"

definition hash_safe :: "string \<Rightarrow> bool" where
  "hash_safe s = (\<not> has_pair (CHR 0x0A) CHR ''#'' s \<and> (s = [] \<or> hd s \<noteq> CHR ''#''))"

text \<open>An entry the report can be made for: a dictionary whose decision makers can be iterated over.\<close>

fun exportable :: "json \<Rightarrow> bool" where
  "exportable (JObj lead) = iterable_kdm lead"
| "exportable _ = False"

section \<open>Properties of the usage metrics\<close>

lemma parse_items_no_equals:
  "\<forall>item \<in> set items. CHR ''='' \<notin> set item \<Longrightarrow> parse_items d items = Inr d"
  by (induction items arbitrary: d) (simp_all add: store_item_def)

text \<open>
  C1. The ingestion loop does not split a token at its first \<open>=\<close> only: it splits at
  every \<open>=\<close> and unpacks the parts into two names. A token with two \<open>=\<close> therefore
  raises \<^verbatim>\<open>ValueError\<close> out of the loop, and the counters that came before it are
  lost with it. This theorem runs the loop on such a text.
\<close>

theorem parse_metrics_second_equals_raises:
  "parse_metrics ''prompt_tokens=120 tag=a=b total_tokens=165'' = Inl ValueError"
  by code_simp

text \<open>
  C5. The usage text of the spec's example is ingested into the four entries, the three
  counts as integers and the model name as text.
\<close>

theorem parse_metrics_example:
  "parse_metrics ''prompt_tokens=120 completion_tokens=45 total_tokens=165 model=gpt-4''
   = Inr [(''prompt_tokens'', IntValue 120), (''completion_tokens'', IntValue 45),
          (''total_tokens'', IntValue 165), (''model'', TextValue ''gpt-4'')]"
  by code_simp

text \<open>
  C6. A usage text none of whose tokens holds an \<open>=\<close> (the empty text among them) is
  ingested without an exception into the empty dictionary, and the three counters and
  the cost are zero.
\<close>

theorem usage_metrics_no_equals:
  assumes "\<forall>item \<in> set (py_split s). CHR ''='' \<notin> set item"
  shows "parse_metrics s = Inr [] \<and>
         usage_metrics s =
           Inr \<lparr>input_tokens = 0, output_tokens = 0, total_tokens = IntValue 0,
                total_cost = 0\<rparr>"
proof -
  have p: "parse_metrics s = Inr []"
    using assms by (simp add: parse_metrics_def parse_items_no_equals)
  have "usage_metrics s =
           Inr \<lparr>input_tokens = 0, output_tokens = 0, total_tokens = IntValue 0,
                total_cost = 0\<rparr>"
    by (simp add: usage_metrics_def p metrics_get_def cost_of_def)
  with p show ?thesis by simp
qed

theorem usage_metrics_no_equals_witness:
  "py_split ''tokens: none reported'' = [''tokens:'', ''none'', ''reported''] \<and>
   usage_metrics ''tokens: none reported'' =
     Inr \<lparr>input_tokens = 0, output_tokens = 0, total_tokens = IntValue 0, total_cost = 0\<rparr> \<and>
   usage_metrics [] =
     Inr \<lparr>input_tokens = 0, output_tokens = 0, total_tokens = IntValue 0, total_cost = 0\<rparr>"
proof -
  have s: "py_split ''tokens: none reported'' = [''tokens:'', ''none'', ''reported'']"
    by code_simp
  have e: "py_split [] = []"
    by (simp add: py_split_def)
  show ?thesis
    using usage_metrics_no_equals [of "''tokens: none reported''"]
      usage_metrics_no_equals [of "[]"]
    by (simp add: s e)
qed

section \<open>Properties of the usage accountant\<close>


section \<open>Properties of the run button\<close>

text \<open>
  C4. When the industry or the country is the empty text, the handler shows the error
  that asks for both and does not invoke the crew: no agent runs.
\<close>

theorem run_missing_input:
  assumes "industry = [] \<or> country = []"
  shows "run_button_handler industry country api_key =
           StError ''Please enter an industry and country'' \<and>
         invocations (run_button_handler industry country api_key) = 0"
  using assms by (auto simp add: run_button_handler_def)

theorem run_missing_input_witness:
  "run_button_handler [] ''Brazil'' (Some ''sk-key'') =
     StError ''Please enter an industry and country'' \<and>
   invocations (run_button_handler [] ''Brazil'' (Some ''sk-key'')) = 0 \<and>
   run_button_handler ''FinTech'' [] (Some ''sk-key'') =
     StError ''Please enter an industry and country'' \<and>
   invocations (run_button_handler ''FinTech'' ''Brazil'' (Some ''sk-key'')) = 1"
  using run_missing_input [of "[]" "''Brazil''" "Some ''sk-key''"]
    run_missing_input [of "''FinTech''" "[]" "Some ''sk-key''"]
  by (simp add: run_button_handler_def)

section \<open>Properties of the sort by score\<close>














section \<open>Properties of the results on screen\<close>

























section \<open>Properties of the report\<close>




section \<open>Properties of the schema and of missing fields\<close>




section \<open>The report and its embedded dump\<close>

lemma hex_val_hex_char: "d < 16 \<Longrightarrow> hex_val (hex_char d) = Some d"
  by (auto simp: hex_val_def hex_char_def Let_def)

lemma hex_val_zero: "hex_val CHR ''0'' = Some 0"
  by (simp add: hex_val_def)

lemma unicode_escape_hex:
  "unicode_escape CHR ''0'' CHR ''0'' (hex_char (of_char c div 16)) (hex_char (of_char c mod 16))
   = Some c"
proof -
  have lt: "(of_char c :: nat) < 256"
    by simp
  have a: "(of_char c :: nat) div 16 < 16" using lt by presburger
  have b: "(of_char c :: nat) mod 16 < 16" by simp
  show ?thesis
    using lt by (simp add: unicode_escape_def hex_val_zero hex_val_hex_char [OF a] hex_val_hex_char [OF b])
qed

lemma str_body_escape_char:
  "str_body acc (escape_char c @ rest) = str_body (acc @ [c]) rest"
proof -
  consider "c = CHR 0x22" | "c = CHR 0x5C" | "c = CHR 0x0A" | "c = CHR 0x0D" | "c = CHR 0x09"
    | "c = CHR 0x08" | "c = CHR 0x0C"
    | "c \<noteq> CHR 0x22" "c \<noteq> CHR 0x5C" "32 \<le> (of_char c :: nat)" "(of_char c :: nat) \<le> 126"
    | "c \<noteq> CHR 0x22" "c \<noteq> CHR 0x5C" "c \<noteq> CHR 0x0A" "c \<noteq> CHR 0x0D" "c \<noteq> CHR 0x09"
      "c \<noteq> CHR 0x08" "c \<noteq> CHR 0x0C" "\<not> (32 \<le> (of_char c :: nat) \<and> (of_char c :: nat) \<le> 126)"
    by auto
  then show ?thesis
  proof cases
    case 8
    then have "escape_char c = [c]"
      by (auto simp: escape_char_def Let_def)
    then show ?thesis using 8 by simp
  next
    case 9
    then have "escape_char c = [CHR 0x5C, CHR ''u'', CHR ''0'', CHR ''0'',
        hex_char (of_char c div 16), hex_char (of_char c mod 16)]"
      by (simp add: escape_char_def Let_def)
    then show ?thesis
      by (simp add: unicode_escape_hex)
  qed (simp_all add: escape_char_def)
qed

lemma str_body_escaped:
  "str_body acc (concat (map escape_char s) @ CHR 0x22 # rest) = Some (acc @ s, rest)"
proof (induction s arbitrary: acc)
  case Nil
  then show ?case by simp
next
  case (Cons c s)
  have "str_body acc (concat (map escape_char (c # s)) @ CHR 0x22 # rest)
        = str_body acc (escape_char c @ (concat (map escape_char s) @ CHR 0x22 # rest))"
    by simp
  also have "\<dots> = str_body (acc @ [c]) (concat (map escape_char s) @ CHR 0x22 # rest)"
    by (rule str_body_escape_char)
  also have "\<dots> = Some (acc @ c # s, rest)"
    using Cons [of "acc @ [c]"] by simp
  finally show ?case .
qed

declare str_of_nat.simps [simp del]

lemma digit_char_props: "d < 10 \<Longrightarrow> is_digit (digit_char d) \<and> digit_val (digit_char d) = d"
  by (simp add: is_digit_def digit_val_def digit_char_def)

lemma digit_char_zero: "d < 10 \<Longrightarrow> (digit_char d = CHR ''0'') = (d = 0)"
proof -
  assume "d < 10"
  then have "(of_char (digit_char d) :: nat) = 48 + d"
    by (simp add: digit_char_def)
  moreover have "(of_char CHR ''0'' :: nat) = 48" by simp
  ultimately show ?thesis
    by (metis add_cancel_right_right of_char_eq_iff)
qed

lemma str_of_nat_digits: "list_all is_digit (str_of_nat n)"
proof (induction n rule: str_of_nat.induct)
  case (1 n)
  show ?case
  proof (cases "n < 10")
    case True
    then show ?thesis
      by (subst str_of_nat.simps) (simp add: digit_char_props)
  next
    case False
    then show ?thesis
      using 1 by (subst str_of_nat.simps) (simp add: digit_char_props)
  qed
qed

lemma str_of_nat_value: "foldl (\<lambda>a d. 10 * a + digit_val d) 0 (str_of_nat n) = n"
proof (induction n rule: str_of_nat.induct)
  case (1 n)
  show ?case
  proof (cases "n < 10")
    case True
    then show ?thesis
      by (subst str_of_nat.simps) (simp add: digit_char_props)
  next
    case False
    then show ?thesis
      using 1 by (subst str_of_nat.simps) (simp add: digit_char_props)
  qed
qed

lemma str_of_nat_head:
  "\<exists>c r. str_of_nat n = c # r \<and> is_digit c \<and> ((c = CHR ''0'') = (n = 0)) \<and> (n = 0 \<longrightarrow> r = [])"
proof (induction n rule: str_of_nat.induct)
  case (1 n)
  show ?case
  proof (cases "n < 10")
    case True
    then show ?thesis
      by (subst str_of_nat.simps) (simp add: digit_char_props digit_char_zero)
  next
    case False
    then obtain c r where cr: "str_of_nat (n div 10) = c # r" "is_digit c"
      "(c = CHR ''0'') = (n div 10 = 0)"
      using 1 [OF False] by (elim exE conjE)
    have "n div 10 \<noteq> 0" using False by simp
    then show ?thesis
      using False cr by (subst str_of_nat.simps) simp
  qed
qed

lemma is_digit_simps [simp]:
  "\<not> is_digit CHR ''-''" "\<not> is_digit CHR '',''" "\<not> is_digit CHR 0x0A" "is_digit CHR ''0''"
  by (simp_all add: is_digit_def)

lemma parse_nat_str_of_nat:
  assumes "ends_number rest"
  shows "parse_nat (str_of_nat n @ rest) = Some (n, rest)"
proof -
  obtain c r where cr: "str_of_nat n = c # r" "is_digit c" "(c = CHR ''0'') = (n = 0)"
    "n = 0 \<longrightarrow> r = []"
    using str_of_nat_head by blast
  show ?thesis
  proof (cases "n = 0")
    case True
    then show ?thesis using cr by (simp add: parse_nat_def)
  next
    case False
    have d: "\<forall>x \<in> set (str_of_nat n). is_digit x"
      using str_of_nat_digits [of n] by (simp add: list_all_iff)
    have r: "takeWhile is_digit rest = [] \<and> dropWhile is_digit rest = rest"
      using assms by (cases rest) (simp_all add: ends_number_def)
    have t: "takeWhile is_digit (str_of_nat n @ rest) = str_of_nat n"
      using d r by (simp add: takeWhile_append2)
    have dr: "dropWhile is_digit (str_of_nat n @ rest) = rest"
      using d r by (simp add: dropWhile_append2)
    have "parse_nat (str_of_nat n @ rest)
          = Some (foldl (\<lambda>a d. 10 * a + digit_val d) 0 (takeWhile is_digit (str_of_nat n @ rest)),
                  dropWhile is_digit (str_of_nat n @ rest))"
      using cr False by (simp add: parse_nat_def)
    then show ?thesis
      by (simp add: t dr str_of_nat_value)
  qed
qed

lemma parse_number_str_of_int:
  assumes "ends_number rest"
  shows "parse_number (str_of_int i @ rest) = Some (JInt i, rest)"
proof (cases "i < 0")
  case True
  have "parse_nat (str_of_nat (nat (- i)) @ rest) = Some (nat (- i), rest)"
    by (rule parse_nat_str_of_nat [OF assms])
  then show ?thesis
    using True assms by (cases rest) (simp_all add: parse_number_def str_of_int_def ends_number_def)
next
  case False
  obtain c r where cr: "str_of_nat (nat i) = c # r" "is_digit c"
    using str_of_nat_head by blast
  then have c: "c \<noteq> CHR ''-''" by auto
  have "parse_nat (str_of_nat (nat i) @ rest) = Some (nat i, rest)"
    by (rule parse_nat_str_of_nat [OF assms])
  then have "parse_nat (c # r @ rest) = Some (nat i, rest)"
    using cr by simp
  then show ?thesis
    using False assms c cr
    by (cases rest) (simp_all add: parse_number_def str_of_int_def ends_number_def)
qed

lemma ws_simps [simp]:
  "is_json_ws CHR '' ''" "is_json_ws CHR 0x0A"
  "\<not> is_json_ws CHR '']''" "\<not> is_json_ws CHR ''}''" "\<not> is_json_ws CHR '',''"
  "\<not> is_json_ws CHR '':''" "\<not> is_json_ws CHR 0x22" "\<not> is_json_ws CHR ''[''"
  "\<not> is_json_ws CHR ''{''" "\<not> is_json_ws CHR ''n''" "\<not> is_json_ws CHR ''t''"
  "\<not> is_json_ws CHR ''f''" "\<not> is_json_ws CHR ''-''"
  by (simp_all add: is_json_ws_def)

lemma digit_not_ws: "is_digit c \<Longrightarrow> \<not> is_json_ws c"
  by (auto simp: is_digit_def is_json_ws_def)

lemma digit_not_punct:
  "is_digit c \<Longrightarrow> c \<noteq> CHR 0x22 \<and> c \<noteq> CHR ''['' \<and> c \<noteq> CHR ''{'' \<and> c \<noteq> CHR ''n''
     \<and> c \<noteq> CHR ''t'' \<and> c \<noteq> CHR ''f'' \<and> c \<noteq> CHR '']'' \<and> c \<noteq> CHR ''}'' \<and> c \<noteq> CHR ''#''"
  by (auto simp: is_digit_def)

lemma skip_ws_Cons [simp]:
  "skip_ws (c # s) = (if is_json_ws c then skip_ws s else c # s)"
  by (simp add: skip_ws_def)

lemma skip_ws_Nil [simp]: "skip_ws [] = []"
  by (simp add: skip_ws_def)

lemma skip_ws_indent [simp]: "skip_ws (newline_indent k @ s) = skip_ws s"
  by (simp add: skip_ws_def newline_indent_def dropWhile_append3 dropWhile_append)

lemma length_indent: "length (newline_indent k) = Suc (2 * k)"
  by (simp add: newline_indent_def)

lemma ends_number_simps [simp]:
  "ends_number []" "ends_number (newline_indent k @ s)" "ends_number (CHR '','' # s)"
  by (simp_all add: ends_number_def newline_indent_def is_digit_def)

lemma parse_value_ws: "is_json_ws c \<Longrightarrow> parse_value n (c # s) = parse_value n s"
  by (cases n) simp_all

lemma parse_value_indent [simp]: "parse_value n (newline_indent k @ s) = parse_value n s"
  by (cases n) simp_all

lemma parse_members_indent [simp]: "parse_members n (newline_indent k @ s) = parse_members n s"
  by (cases n) simp_all

lemma parse_elements_indent [simp]: "parse_elements n (newline_indent k @ s) = parse_elements n s"
  by (cases n) simp_all

lemma str_of_int_head: "\<exists>c r. str_of_int i = c # r \<and> (c = CHR ''-'' \<or> is_digit c)"
proof (cases "i < 0")
  case True
  then show ?thesis by (simp add: str_of_int_def)
next
  case False
  obtain c r where "str_of_nat (nat i) = c # r" "is_digit c"
    using str_of_nat_head by blast
  then show ?thesis using False by (simp add: str_of_int_def)
qed

lemma value_start_props:
  "value_start c \<Longrightarrow> \<not> is_json_ws c \<and> c \<noteq> CHR '']'' \<and> c \<noteq> CHR ''}'' \<and> c \<noteq> CHR ''#''"
  using digit_not_ws digit_not_punct by (auto simp: value_start_def)

lemma value_start_simps [simp]:
  "value_start CHR 0x22" "value_start CHR ''[''" "value_start CHR ''{''" "value_start CHR ''n''"
  "value_start CHR ''t''" "value_start CHR ''f''" "value_start CHR ''-''"
  by (simp_all add: value_start_def)

lemma dumps_head: "\<exists>c r. dumps lvl v = c # r \<and> value_start c"
proof (cases v)
  case JNull
  then show ?thesis by simp
next
  case (JBool b)
  then show ?thesis by simp
next
  case (JInt i)
  then show ?thesis
    using str_of_int_head [of i] by (auto simp: value_start_def)
next
  case (JStr s)
  then show ?thesis by (simp add: dumps_str_def)
next
  case (JList xs)
  then show ?thesis by simp
next
  case (JObj d)
  then show ?thesis by simp
qed

lemma skip_ws_dumps [simp]: "skip_ws (dumps lvl v @ s) = dumps lvl v @ s"
proof -
  obtain c r where "dumps lvl v = c # r" "value_start c"
    using dumps_head by blast
  then show ?thesis using value_start_props by simp
qed

lemma dumps_nonempty: "0 < length (dumps lvl v)"
  using dumps_head [of lvl v] by auto

lemma parse_value_number:
  assumes "c = CHR ''-'' \<or> is_digit c"
  shows "parse_value (Suc n) (c # s) = parse_number (c # s)"
proof (cases "c = CHR ''-''")
  case True
  then show ?thesis by simp
next
  case False
  then have d: "is_digit c" using assms by simp
  have w: "\<not> is_json_ws c" by (rule digit_not_ws [OF d])
  have p: "c \<noteq> CHR 0x22" "c \<noteq> CHR ''[''" "c \<noteq> CHR ''{''" "c \<noteq> CHR ''n''"
    "c \<noteq> CHR ''t''" "c \<noteq> CHR ''f''"
    using digit_not_punct [OF d] by simp_all
  show ?thesis
    by (simp add: w p)
qed

lemma parse_value_string:
  "parse_value (Suc n) (dumps_str s @ rest) = Some (JStr s, rest)"
  by (simp add: dumps_str_def str_body_escaped)

lemma parse_value_list:
  assumes "skip_ws cs = d # r" "d \<noteq> CHR '']''"
  shows "parse_value (Suc n) (CHR ''['' # cs)
         = map_option (\<lambda>p. (JList (fst p), snd p)) (parse_elements n cs)"
  using assms by simp

lemma parse_value_dict:
  assumes "skip_ws cs = d # r" "d \<noteq> CHR ''}''"
  shows "parse_value (Suc n) (CHR ''{'' # cs)
         = map_option (\<lambda>p. (JObj (dict_of (fst p)), snd p)) (parse_members n cs)"
  using assms by simp

lemma parse_elements_last:
  assumes "parse_value n s = Some (v, r)" "skip_ws r = CHR '']'' # r'"
  shows "parse_elements (Suc n) s = Some ([v], r')"
  using assms by simp

lemma parse_elements_more:
  assumes "parse_value n s = Some (v, r)" "skip_ws r = CHR '','' # r'"
    "parse_elements n r' = Some (vs, r'')"
  shows "parse_elements (Suc n) s = Some (v # vs, r'')"
  using assms by simp

lemma parse_members_last:
  assumes "skip_ws s = CHR 0x22 # ks" "str_body [] ks = Some (key, r)"
    "skip_ws r = CHR '':'' # vs" "parse_value n vs = Some (v, r')"
    "skip_ws r' = CHR ''}'' # r''"
  shows "parse_members (Suc n) s = Some ([(key, v)], r'')"
  using assms by simp

lemma parse_members_more:
  assumes "skip_ws s = CHR 0x22 # ks" "str_body [] ks = Some (key, r)"
    "skip_ws r = CHR '':'' # vs" "parse_value n vs = Some (v, r')"
    "skip_ws r' = CHR '','' # r''" "parse_members n r'' = Some (kvs, r3)"
  shows "parse_members (Suc n) s = Some ((key, v) # kvs, r3)"
  using assms by simp

lemma update_fresh: "k \<notin> fst ` set al \<Longrightarrow> AList.update k v al = al @ [(k, v)]"
  by (induction al) auto

lemma foldl_update_distinct:
  "distinct (map fst (acc @ d)) \<Longrightarrow>
   foldl (\<lambda>d kv. AList.update (fst kv) (snd kv) d) acc d = acc @ d"
proof (induction d arbitrary: acc)
  case Nil
  then show ?case by simp
next
  case (Cons kv d)
  have "fst kv \<notin> fst ` set acc"
    using Cons.prems by auto
  then have "AList.update (fst kv) (snd kv) acc = acc @ [kv]"
    by (simp add: update_fresh)
  moreover have "distinct (map fst ((acc @ [kv]) @ d))"
    using Cons.prems by simp
  ultimately show ?case
    using Cons.IH [of "acc @ [kv]"] by simp
qed

lemma dict_of_distinct: "distinct (map fst d) \<Longrightarrow> dict_of d = d"
  using foldl_update_distinct [of "[]" d] by (simp add: dict_of_def)

lemma parse_elements_items:
  assumes "\<And>x n rest. x \<in> set xs \<Longrightarrow> ends_number rest \<Longrightarrow> length (dumps k x) \<le> n
             \<Longrightarrow> parse_value n (dumps k x @ rest) = Some (x, rest)"
    and "xs \<noteq> []"
    and "length (newline_indent k @ join (CHR '','' # newline_indent k) (map (dumps k) xs)
                 @ newline_indent l) \<le> m"
  shows "parse_elements m
           (newline_indent k @ join (CHR '','' # newline_indent k) (map (dumps k) xs)
            @ newline_indent l @ CHR '']'' # rest) = Some (xs, rest)"
  using assms
proof (induction xs arbitrary: m)
  case Nil
  then show ?case by simp
next
  case (Cons x xs)
  obtain m' where m: "m = Suc m'"
    using Cons.prems(3) by (cases m) (simp_all add: length_indent)
  show ?case
  proof (cases xs)
    case Nil
    have l1: "length (dumps k x) \<le> m'"
      using Cons.prems(3) m Nil by (simp add: length_indent)
    have "parse_value m' (dumps k x @ (newline_indent l @ CHR '']'' # rest))
          = Some (x, newline_indent l @ CHR '']'' # rest)"
      using Cons.prems(1) [of x "newline_indent l @ CHR '']'' # rest" m'] l1 by simp
    then have pv: "parse_value m' (newline_indent k @ dumps k x @ newline_indent l @ CHR '']'' # rest)
          = Some (x, newline_indent l @ CHR '']'' # rest)"
      by simp
    have sk: "skip_ws (newline_indent l @ CHR '']'' # rest) = CHR '']'' # rest"
      by simp
    show ?thesis
      unfolding m using parse_elements_last [OF pv sk] Nil by simp
  next
    case ys: (Cons y ys)
    let ?tail = "newline_indent k @ join (CHR '','' # newline_indent k) (map (dumps k) xs)
                 @ newline_indent l"
    have j: "join (CHR '','' # newline_indent k) (dumps k x # map (dumps k) xs)
             = dumps k x @ CHR '','' # newline_indent k
               @ join (CHR '','' # newline_indent k) (map (dumps k) xs)"
      using ys by simp
    have l1: "length (dumps k x) \<le> m'" and l2: "length ?tail \<le> m'"
      using Cons.prems(3) m by (simp_all add: j length_indent)
    have "parse_value m' (dumps k x @ (CHR '','' # ?tail @ CHR '']'' # rest))
          = Some (x, CHR '','' # ?tail @ CHR '']'' # rest)"
      using Cons.prems(1) [of x "CHR '','' # ?tail @ CHR '']'' # rest" m'] l1 by simp
    then have pv: "parse_value m' (newline_indent k @ dumps k x @ CHR '','' # ?tail @ CHR '']'' # rest)
          = Some (x, CHR '','' # ?tail @ CHR '']'' # rest)"
      by simp
    have sk: "skip_ws (CHR '','' # ?tail @ CHR '']'' # rest) = CHR '','' # ?tail @ CHR '']'' # rest"
      by simp
    have pe: "parse_elements m' (?tail @ CHR '']'' # rest) = Some (xs, rest)"
      using Cons.IH [of m'] Cons.prems(1) l2 ys by simp
    have "parse_elements (Suc m') (newline_indent k @ dumps k x @ CHR '','' # ?tail @ CHR '']'' # rest)
          = Some (x # xs, rest)"
      by (rule parse_elements_more [OF pv sk pe])
    then show ?thesis
      unfolding m by (simp add: j)
  qed
qed


lemma join_Cons2: "ys \<noteq> [] \<Longrightarrow> join sep (x # ys) = x @ sep @ join sep ys"
  by (cases ys) simp_all

lemma parse_members_items:
  assumes "\<And>kv n rest. kv \<in> set d \<Longrightarrow> ends_number rest \<Longrightarrow> length (dumps k (snd kv)) \<le> n
             \<Longrightarrow> parse_value n (dumps k (snd kv) @ rest) = Some (snd kv, rest)"
    and "d \<noteq> []"
    and "length (newline_indent k
                 @ join (CHR '','' # newline_indent k)
                     (map (\<lambda>kv. dumps_str (fst kv) @ '': '' @ dumps k (snd kv)) d)
                 @ newline_indent l) \<le> m"
  shows "parse_members m
           (newline_indent k
            @ join (CHR '','' # newline_indent k)
                (map (\<lambda>kv. dumps_str (fst kv) @ '': '' @ dumps k (snd kv)) d)
            @ newline_indent l @ CHR ''}'' # rest) = Some (d, rest)"
  using assms
proof (induction d arbitrary: m)
  case Nil
  then show ?case by simp
next
  case (Cons kv d)
  let ?f = "\<lambda>kv. dumps_str (fst kv) @ '': '' @ dumps k (snd kv)"
  obtain m' where m: "m = Suc m'"
    using Cons.prems(3) by (cases m) (simp_all add: length_indent)
  have key: "\<And>s. skip_ws (newline_indent k @ ?f kv @ s)
                 = CHR 0x22 # (concat (map escape_char (fst kv)) @ CHR 0x22
                               # CHR '':'' # CHR '' '' # dumps k (snd kv) @ s)"
    by (simp add: dumps_str_def)
  have body: "\<And>s. str_body [] (concat (map escape_char (fst kv)) @ CHR 0x22
                               # CHR '':'' # CHR '' '' # dumps k (snd kv) @ s)
                   = Some (fst kv, CHR '':'' # CHR '' '' # dumps k (snd kv) @ s)"
    using str_body_escaped [of "[]"] by simp
  have colon: "\<And>s. skip_ws (CHR '':'' # CHR '' '' # dumps k (snd kv) @ s)
                   = CHR '':'' # CHR '' '' # dumps k (snd kv) @ s"
    by simp
  have val: "\<And>s. ends_number s \<Longrightarrow> length (dumps k (snd kv)) \<le> m' \<Longrightarrow>
                  parse_value m' (CHR '' '' # dumps k (snd kv) @ s) = Some (snd kv, s)"
    using Cons.prems(1) [of kv _ m'] by (simp add: parse_value_ws)
  show ?case
  proof (cases d)
    case Nil
    have l1: "length (dumps k (snd kv)) \<le> m'"
      using Cons.prems(3) m Nil by (simp add: length_indent)
    have sk: "skip_ws (newline_indent l @ CHR ''}'' # rest) = CHR ''}'' # rest"
      by simp
    have "parse_members (Suc m') (newline_indent k @ ?f kv @ newline_indent l @ CHR ''}'' # rest)
          = Some ([(fst kv, snd kv)], rest)"
      by (rule parse_members_last [OF key body colon val sk]) (simp_all add: l1)
    then show ?thesis
      unfolding m using Nil by simp
  next
    case ds: (Cons kv' d')
    let ?tail = "newline_indent k @ join (CHR '','' # newline_indent k) (map ?f d)
                 @ newline_indent l"
    have dne: "map ?f d \<noteq> []"
      using ds by simp
    have l1: "length (dumps k (snd kv)) \<le> m'" and l2: "length ?tail \<le> m'"
      using Cons.prems(3) m by (simp_all add: ds length_indent)
    have sk: "skip_ws (CHR '','' # ?tail @ CHR ''}'' # rest) = CHR '','' # ?tail @ CHR ''}'' # rest"
      by simp
    have pm: "parse_members m' (?tail @ CHR ''}'' # rest) = Some (d, rest)"
      using Cons.IH [of m'] Cons.prems(1) l2 ds by simp
    have "parse_members (Suc m') (newline_indent k @ ?f kv @ CHR '','' # ?tail @ CHR ''}'' # rest)
          = Some ((fst kv, snd kv) # d, rest)"
      by (rule parse_members_more [OF key body colon val sk pm]) (simp_all add: l1)
    then show ?thesis
      unfolding m by (simp add: ds)
  qed
qed

lemma join_dumps_head:
  "xs \<noteq> [] \<Longrightarrow> \<exists>c r. join sep (map (dumps k) xs) = c # r \<and> value_start c"
proof (cases xs)
  case Nil
  assume "xs \<noteq> []"
  with Nil show ?thesis by simp
next
  case (Cons x ys)
  obtain c r where "dumps k x = c # r" "value_start c"
    using dumps_head by blast
  then show ?thesis
    using Cons by (cases ys) auto
qed

lemma join_members_head:
  "d \<noteq> [] \<Longrightarrow>
   \<exists>r. join sep (map (\<lambda>kv. dumps_str (fst kv) @ '': '' @ dumps k (snd kv)) d) = CHR 0x22 # r"
proof (cases d)
  case Nil
  assume "d \<noteq> []"
  with Nil show ?thesis by simp
next
  case (Cons kv ys)
  then show ?thesis
    by (cases ys) (auto simp: dumps_str_def)
qed

lemma parse_dumps:
  "wf_json v \<Longrightarrow> ends_number rest \<Longrightarrow> length (dumps lvl v) \<le> n \<Longrightarrow>
   parse_value n (dumps lvl v @ rest) = Some (v, rest)"
proof (induction v arbitrary: lvl n rest)
  case JNull
  then obtain m where "n = Suc m" by (cases n) simp_all
  then show ?case by (simp add: strip_prefix_def)
next
  case (JBool b)
  then obtain m where "n = Suc m" by (cases n; cases b) simp_all
  then show ?case by (cases b) (simp_all add: strip_prefix_def)
next
  case (JInt i)
  obtain m where m: "n = Suc m"
    using JInt.prems(3) dumps_nonempty [of lvl "JInt i"] by (cases n) simp_all
  obtain c r where cr: "str_of_int i = c # r" "c = CHR ''-'' \<or> is_digit c"
    using str_of_int_head by blast
  have "parse_value (Suc m) (c # r @ rest) = parse_number (c # r @ rest)"
    by (rule parse_value_number [OF cr(2)])
  also have "\<dots> = parse_number (str_of_int i @ rest)"
    using cr(1) by simp
  also have "\<dots> = Some (JInt i, rest)"
    by (rule parse_number_str_of_int [OF JInt.prems(2)])
  finally show ?case
    using cr(1) m by simp
next
  case (JStr s)
  obtain m where m: "n = Suc m"
    using JStr.prems(3) dumps_nonempty [of lvl "JStr s"] by (cases n) simp_all
  show ?case
    unfolding m using parse_value_string by simp
next
  case (JList xs)
  obtain m where m: "n = Suc m"
    using JList.prems(3) dumps_nonempty [of lvl "JList xs"] by (cases n) simp_all
  show ?case
  proof (cases "xs = []")
    case True
    then show ?thesis unfolding m by simp
  next
    case False
    let ?k = "Suc lvl"
    let ?body = "newline_indent ?k @ join (CHR '','' # newline_indent ?k) (map (dumps ?k) xs)
                 @ newline_indent lvl"
    have d: "dumps lvl (JList xs) = CHR ''['' # ?body @ [CHR '']'']"
      using False by simp
    have len: "length ?body \<le> m"
      using JList.prems(3) unfolding d m by simp
    have wf: "\<And>x. x \<in> set xs \<Longrightarrow> wf_json x"
      using JList.prems(1) by (simp add: list_all_iff)
    have pe: "parse_elements m (?body @ CHR '']'' # rest) = Some (xs, rest)"
      using parse_elements_items [where xs = xs and k = ?k and l = lvl and m = m and rest = rest]
        JList.IH wf False len by simp
    obtain c r where cr: "join (CHR '','' # newline_indent ?k) (map (dumps ?k) xs) = c # r"
      "value_start c"
      using join_dumps_head [OF False] by blast
    have sk: "skip_ws (?body @ CHR '']'' # rest) = c # r @ newline_indent lvl @ CHR '']'' # rest"
      using cr value_start_props [of c] by simp
    have "c \<noteq> CHR '']''"
      using cr(2) value_start_props by blast
    then have "parse_value (Suc m) (CHR ''['' # ?body @ CHR '']'' # rest)
          = map_option (\<lambda>p. (JList (fst p), snd p)) (parse_elements m (?body @ CHR '']'' # rest))"
      using parse_value_list [OF sk] by simp
    then show ?thesis
      unfolding m d using pe by simp
  qed
next
  case (JObj d)
  obtain m where m: "n = Suc m"
    using JObj.prems(3) dumps_nonempty [of lvl "JObj d"] by (cases n) simp_all
  show ?case
  proof (cases "d = []")
    case True
    then show ?thesis unfolding m by (simp add: dict_of_def)
  next
    case False
    let ?k = "Suc lvl"
    let ?f = "\<lambda>kv. dumps_str (fst kv) @ '': '' @ dumps ?k (snd kv)"
    let ?body = "newline_indent ?k @ join (CHR '','' # newline_indent ?k) (map ?f d)
                 @ newline_indent lvl"
    have dd: "dumps lvl (JObj d) = CHR ''{'' # ?body @ [CHR ''}'']"
      using False by simp
    have len: "length ?body \<le> m"
      using JObj.prems(3) unfolding dd m by simp
    have wf: "\<And>kv. kv \<in> set d \<Longrightarrow> wf_json (snd kv)"
      using JObj.prems(1) by (simp add: list_all_iff)
    have ih: "\<And>kv n rest. kv \<in> set d \<Longrightarrow> ends_number rest \<Longrightarrow> length (dumps ?k (snd kv)) \<le> n
               \<Longrightarrow> parse_value n (dumps ?k (snd kv) @ rest) = Some (snd kv, rest)"
    proof -
      fix kv :: "string \<times> json" and n rest
      assume a: "kv \<in> set d" "ends_number rest" "length (dumps ?k (snd kv)) \<le> n"
      have "snd kv \<in> Basic_BNFs.snds kv"
        by (cases kv) simp
      then show "parse_value n (dumps ?k (snd kv) @ rest) = Some (snd kv, rest)"
        using JObj.IH [OF a(1) _ wf [OF a(1)] a(2) a(3)] by simp
    qed
    have pm: "parse_members m (?body @ CHR ''}'' # rest) = Some (d, rest)"
      using parse_members_items [where d = d and k = ?k and l = lvl and m = m and rest = rest,
          OF ih False] len by simp
    obtain r where r: "join (CHR '','' # newline_indent ?k) (map ?f d) = CHR 0x22 # r"
      using join_members_head [OF False] by blast
    have sk: "skip_ws (?body @ CHR ''}'' # rest)
              = CHR 0x22 # r @ newline_indent lvl @ CHR ''}'' # rest"
      using r by simp
    have "parse_value (Suc m) (CHR ''{'' # ?body @ CHR ''}'' # rest)
          = map_option (\<lambda>p. (JObj (dict_of (fst p)), snd p))
              (parse_members m (?body @ CHR ''}'' # rest))"
      using parse_value_dict [OF sk] by simp
    moreover have "dict_of d = d"
      using JObj.prems(1) by (simp add: dict_of_distinct)
    ultimately show ?thesis
      unfolding m dd using pm by simp
  qed
qed

lemma json_loads_dumps: "wf_json v \<Longrightarrow> json_loads (json_dumps v) = Some v"
  using parse_dumps [of v "[]" 0 "Suc (length (dumps 0 v))"]
  by (simp add: json_loads_def json_dumps_def)

lemma has_pair_append:
  "has_pair a b (s @ t) \<Longrightarrow> has_pair a b s \<or> has_pair a b t \<or> (t \<noteq> [] \<and> hd t = b)"
proof (induction s)
  case Nil
  then show ?case by simp
next
  case (Cons x s)
  show ?case
  proof (cases s)
    case Nil
    then show ?thesis
      using Cons.prems by (cases t) auto
  next
    case s: (Cons y r)
    then show ?thesis
      using Cons.prems Cons.IH by auto
  qed
qed

lemma has_pair_absent: "a \<notin> set s \<Longrightarrow> \<not> has_pair a b s"
  by (induction a b s rule: has_pair.induct) auto

lemma hash_safe_append: "hash_safe s \<Longrightarrow> hash_safe t \<Longrightarrow> hash_safe (s @ t)"
  using has_pair_append [of "CHR 0x0A" "CHR ''#''" s t]
  by (cases s) (auto simp: hash_safe_def)

lemma hash_safe_Nil [simp]: "hash_safe []"
  by (simp add: hash_safe_def)

lemma hash_safe_no_newline:
  "CHR 0x0A \<notin> set s \<Longrightarrow> s = [] \<or> hd s \<noteq> CHR ''#'' \<Longrightarrow> hash_safe s"
  by (simp add: hash_safe_def has_pair_absent)

lemma hash_safe_Cons: "c \<noteq> CHR ''#'' \<Longrightarrow> hash_safe s \<Longrightarrow> hash_safe (c # s)"
proof -
  assume c: "c \<noteq> CHR ''#''" and s: "hash_safe s"
  have "hash_safe [c]"
    using c by (simp add: hash_safe_def)
  from hash_safe_append [OF this s] show ?thesis by simp
qed

lemma hash_safe_indent: "hash_safe (newline_indent k)"
proof -
  have "hash_safe (replicate (2 * k) CHR '' '')"
    by (rule hash_safe_no_newline) (auto simp: hd_replicate)
  then show ?thesis
    unfolding newline_indent_def by (rule hash_safe_Cons [rotated]) simp
qed

lemma hash_safe_join:
  "hash_safe sep \<Longrightarrow> \<forall>x \<in> set xs. hash_safe x \<Longrightarrow> hash_safe (join sep xs)"
  by (induction sep xs rule: join.induct) (simp_all add: hash_safe_append)

lemma escape_char_no_newline: "CHR 0x0A \<notin> set (escape_char c)"
proof -
  have h: "\<And>d. d < 16 \<Longrightarrow> hex_char d \<noteq> CHR 0x0A"
  proof -
    fix d :: nat
    assume "d < 16"
    then have "(of_char (hex_char d) :: nat) \<noteq> 10"
      by (auto simp: hex_char_def)
    then show "hex_char d \<noteq> CHR 0x0A" by auto
  qed
  have a: "(of_char c :: nat) div 16 < 16"
    using nat_of_char_less_256 [of c] by presburger
  have b: "(of_char c :: nat) mod 16 < 16" by simp
  show ?thesis
    using h [OF a] h [OF b] by (simp add: escape_char_def Let_def)
qed

lemma dumps_str_safe: "hash_safe (dumps_str s)"
proof (rule hash_safe_no_newline)
  show "CHR 0x0A \<notin> set (dumps_str s)"
    using escape_char_no_newline by (auto simp: dumps_str_def)
  show "dumps_str s = [] \<or> hd (dumps_str s) \<noteq> CHR ''#''"
    by (simp add: dumps_str_def)
qed

lemma str_of_int_safe: "hash_safe (str_of_int i)"
proof (rule hash_safe_no_newline)
  have d: "\<forall>c \<in> set (str_of_nat n). is_digit c" for n
    using str_of_nat_digits [of n] by (simp add: list_all_iff)
  have "\<not> is_digit (CHR 0x0A)" by simp
  then have "CHR 0x0A \<notin> set (str_of_nat n)" for n
    using d [of n] by blast
  then show "CHR 0x0A \<notin> set (str_of_int i)"
    by (simp add: str_of_int_def)
  obtain c r where "str_of_int i = c # r" "c = CHR ''-'' \<or> is_digit c"
    using str_of_int_head by blast
  then show "str_of_int i = [] \<or> hd (str_of_int i) \<noteq> CHR ''#''"
    using digit_not_punct [of c] by auto
qed

lemma dumps_safe: "hash_safe (dumps lvl v)"
proof (induction v arbitrary: lvl)
  case JNull
  show ?case by (simp add: hash_safe_def)
next
  case (JBool b)
  show ?case by (cases b) (simp_all add: hash_safe_def)
next
  case (JInt i)
  show ?case by (simp add: str_of_int_safe)
next
  case (JStr s)
  show ?case by (simp add: dumps_str_safe)
next
  case (JList xs)
  have sep: "hash_safe (CHR '','' # newline_indent (Suc lvl))"
    by (rule hash_safe_Cons) (simp_all add: hash_safe_indent)
  have items: "hash_safe (join (CHR '','' # newline_indent (Suc lvl)) (map (dumps (Suc lvl)) xs))"
    by (rule hash_safe_join [OF sep]) (simp add: JList.IH)
  have close: "hash_safe (newline_indent lvl @ [CHR '']''])"
    by (rule hash_safe_append [OF hash_safe_indent]) (simp add: hash_safe_def)
  show ?case
  proof (cases "xs = []")
    case True
    then show ?thesis by (simp add: hash_safe_def)
  next
    case False
    have "hash_safe (CHR ''['' # newline_indent (Suc lvl)
            @ join (CHR '','' # newline_indent (Suc lvl)) (map (dumps (Suc lvl)) xs)
            @ newline_indent lvl @ [CHR '']''])"
      by (intro hash_safe_Cons hash_safe_append hash_safe_indent items close) simp
    then show ?thesis using False by simp
  qed
next
  case (JObj d)
  let ?f = "\<lambda>kv. dumps_str (fst kv) @ '': '' @ dumps (Suc lvl) (snd kv)"
  have sep: "hash_safe (CHR '','' # newline_indent (Suc lvl))"
    by (rule hash_safe_Cons) (simp_all add: hash_safe_indent)
  have item: "hash_safe (?f kv)" if "kv \<in> set d" for kv
  proof -
    have "snd kv \<in> Basic_BNFs.snds kv" by (cases kv) simp
    then have v: "hash_safe (dumps (Suc lvl) (snd kv))"
      using JObj.IH [OF that] by simp
    have "hash_safe ('': '' @ dumps (Suc lvl) (snd kv))"
      by (rule hash_safe_append [OF _ v]) (simp add: hash_safe_def)
    then show ?thesis
      by (rule hash_safe_append [OF dumps_str_safe])
  qed
  have items: "hash_safe (join (CHR '','' # newline_indent (Suc lvl)) (map ?f d))"
    by (rule hash_safe_join [OF sep]) (use item in auto)
  have close: "hash_safe (newline_indent lvl @ [CHR ''}''])"
    by (rule hash_safe_append [OF hash_safe_indent]) (simp add: hash_safe_def)
  show ?case
  proof (cases "d = []")
    case True
    then show ?thesis by (simp add: hash_safe_def)
  next
    case False
    have "hash_safe (CHR ''{'' # newline_indent (Suc lvl)
            @ join (CHR '','' # newline_indent (Suc lvl)) (map ?f d)
            @ newline_indent lvl @ [CHR ''}''])"
      by (intro hash_safe_Cons hash_safe_append hash_safe_indent items close) simp
    then show ?thesis using False by simp
  qed
qed

lemma after_last_no_pair:
  "\<not> has_pair a b t \<Longrightarrow> after_last (a # b # m) t = None"
proof (induction t)
  case Nil
  then show ?case by simp
next
  case (Cons c cs)
  have "\<not> has_pair a b cs"
    using Cons.prems by (cases cs) auto
  then have ih: "after_last (a # b # m) cs = None"
    by (rule Cons.IH)
  have "take (length (a # b # m)) (c # cs) \<noteq> a # b # m"
  proof
    assume "take (length (a # b # m)) (c # cs) = a # b # m"
    then have "c = a \<and> (\<exists>r. cs = b # r)"
      by (cases cs) auto
    then show False using Cons.prems by auto
  qed
  then show ?case using ih by simp
qed

lemma after_last_found:
  assumes "after_last (c # m) (m @ r) = None"
  shows "after_last (c # m) (p @ (c # m) @ r) = Some r"
proof (induction p)
  case Nil
  show ?case using assms by simp
next
  case (Cons x p)
  then show ?case by simp
qed

lemma strip_suffix_append: "strip_suffix p (s @ p) = Some s"
  by (simp add: strip_suffix_def)

lemma report_lead_exportable: "exportable x \<Longrightarrow> \<exists>t. report_lead x = Inr t"
  by (cases x) (auto simp: iterable_kdm_def Let_def split: sum.splits)

lemma report_leads_exportable: "list_all exportable xs \<Longrightarrow> \<exists>t. report_leads xs = Inr t"
proof (induction xs)
  case Nil
  then show ?case by simp
next
  case (Cons x xs)
  obtain t where t: "report_lead x = Inr t"
    using Cons.prems report_lead_exportable by auto
  obtain ts where ts: "report_leads xs = Inr ts"
    using Cons by auto
  show ?case by (simp add: t ts)
qed

lemma heading_shape:
  "raw_json_heading = CHR 0x0A # CHR ''#'' # ''# Raw JSON Data'' @ nl @ nl @ ''```json'' @ nl"
  by (simp add: raw_json_heading_def nl_def)

lemma heading_tail_no_pair:
  "\<not> has_pair (CHR 0x0A) CHR ''#'' (CHR ''#'' # ''# Raw JSON Data'' @ nl @ nl @ ''```json'' @ nl)"
  by (simp add: nl_def)

lemma fence_safe: "hash_safe closing_fence"
  by (simp add: closing_fence_def nl_def hash_safe_def)

lemma extract_dump_report:
  assumes "wf_json v"
  shows "extract_dump (p @ raw_json_heading @ json_dumps v @ closing_fence) = Some v"
proof -
  let ?m = "CHR ''#'' # ''# Raw JSON Data'' @ nl @ nl @ ''```json'' @ nl"
  let ?r = "json_dumps v @ closing_fence"
  have safe: "hash_safe ?r"
    unfolding json_dumps_def by (rule hash_safe_append [OF dumps_safe fence_safe])
  have "\<not> has_pair (CHR 0x0A) CHR ''#'' (?m @ ?r)"
    using has_pair_append [of "CHR 0x0A" "CHR ''#''" ?m ?r] heading_tail_no_pair safe
    by (auto simp: hash_safe_def)
  then have "after_last (CHR 0x0A # ?m) (?m @ ?r) = None"
    using after_last_no_pair [of "CHR 0x0A" "CHR ''#''" "?m @ ?r" "''# Raw JSON Data'' @ nl @ nl @ ''```json'' @ nl"]
    by simp
  then have "after_last (CHR 0x0A # ?m) (p @ (CHR 0x0A # ?m) @ ?r) = Some ?r"
    by (rule after_last_found)
  then have "after_last raw_json_heading (p @ raw_json_heading @ ?r) = Some ?r"
    by (simp only: heading_shape)
  then show ?thesis
    by (simp add: extract_dump_def strip_suffix_append json_loads_dumps [OF assms])
qed

text \<open>
  C7. A report is made for every list of leads (dictionaries whose decision makers can
  be iterated over). Whenever a report is made, extracting its embedded dump gives back
  the list that was exported, entry for entry and field for field, for every list that
  \<^verbatim>\<open>json.loads\<close> can have returned.
\<close>

theorem report_round_trip:
  "(list_all exportable results_list \<longrightarrow> (\<exists>text. generate_report results_list = Inr text)) \<and>
   (generate_report results_list = Inr text \<and> list_all wf_json results_list \<longrightarrow>
      extract_dump text = Some (JList results_list))"
proof (intro conjI impI)
  assume "list_all exportable results_list"
  then obtain t where "report_leads results_list = Inr t"
    using report_leads_exportable by blast
  then show "\<exists>text. generate_report results_list = Inr text"
    by (simp add: generate_report_def)
next
  assume a: "generate_report results_list = Inr text \<and> list_all wf_json results_list"
  then obtain sections where
    "text = (''# Lead Generation Report'' @ nl @ nl @ sections)
            @ raw_json_heading @ json_dumps (JList results_list) @ closing_fence"
    by (auto simp: generate_report_def split: sum.splits)
  moreover have "wf_json (JList results_list)"
    using a by simp
  ultimately show "extract_dump text = Some (JList results_list)"
    using extract_dump_report by blast
qed

theorem report_round_trip_witness:
  "(\<exists>text. generate_report
              [JObj [(''company_name'', JStr ''Acme ## Raw JSON Data''), (''score'', JInt 7),
                     (''key_decision_makers'', JList [JObj [(''name'', JStr ''Ann'')]])],
               JObj [(''company_name'', JStr ''Bolt''), (''num_employees'', JInt 40)]] = Inr text \<and>
           extract_dump text = Some (JList
              [JObj [(''company_name'', JStr ''Acme ## Raw JSON Data''), (''score'', JInt 7),
                     (''key_decision_makers'', JList [JObj [(''name'', JStr ''Ann'')]])],
               JObj [(''company_name'', JStr ''Bolt''), (''num_employees'', JInt 40)]]))"
proof -
  let ?L = "[JObj [(''company_name'', JStr ''Acme ## Raw JSON Data''), (''score'', JInt 7),
                     (''key_decision_makers'', JList [JObj [(''name'', JStr ''Ann'')]])],
               JObj [(''company_name'', JStr ''Bolt''), (''num_employees'', JInt 40)]]"
  have e: "list_all exportable ?L" by code_simp
  have w: "list_all wf_json ?L" by code_simp
  obtain report where t: "generate_report ?L = Inr report"
    using report_round_trip [of ?L, THEN conjunct1, THEN mp, OF e] by blast
  have "extract_dump report = Some (JList ?L)"
    using report_round_trip [of ?L report, THEN conjunct2, THEN mp] t w by blast
  with t show ?thesis by blast
qed

end
